theory Spec2Isabelle
  imports Complex_Main "HOL-Library.Word" "HOL-Library.Multiset"
begin

section \<open>Data model\<close>

text \<open>
  The trade tracker is JavaScript. Its numbers are IEEE-754 doubles; every finite
  double is a rational number, so a number is modelled as a \<open>rat\<close>. Arithmetic on
  them is exact unless a function takes its arithmetic as a parameter
  (\<open>getPnLDistribution\<close> does, because what it returns depends on rounding).
  A property that is absent from a JavaScript object (\<open>undefined\<close>) is \<open>None\<close>.
  A \<open>Date\<close> is its time value, the milliseconds since the epoch, an \<open>int\<close>.
\<close>

datatype side = Buy | Sell

record trade =
  ticket :: "string option"
  symbol :: "string option"
  type :: side
  volume :: rat
  openPrice :: rat
  closePrice :: rat
  profit :: rat
  commission :: rat
  swap :: rat
  netProfit :: "rat option"
  sl :: "rat option"
  tp :: "rat option"
  openTime :: int
  closeTime :: int



section \<open>Statistics engine (class StatsCalculator)\<close>

text \<open>
  \<open>sortTradesByDate\<close> copies the array and sorts it with the comparator
  \<open>dateA - dateB\<close> on the close times. \<open>Array.prototype.sort\<close> is stable, as
  \<open>sort_key\<close> is.
\<close>

definition sortTradesByDate :: "trade list \<Rightarrow> trade list" where
  "sortTradesByDate trades = sort_key closeTime trades"

text \<open>\<open>trade.netProfit !== undefined ? trade.netProfit : (trade.profit || 0)\<close>\<close>

definition getTradeProfit :: "trade \<Rightarrow> rat" where
  "getTradeProfit t = (case netProfit t of Some n \<Rightarrow> n | None \<Rightarrow> profit t)"



definition getBreakEvenTrades :: "trade list \<Rightarrow> trade list" where
  "getBreakEvenTrades trades = filter (\<lambda>t. getTradeProfit t = 0) trades"






subsection \<open>Equity curve and drawdown\<close>

record point =
  date :: int
  equity :: rat
  trade :: trade

text \<open>The loop of \<open>getEquityCurve\<close>; the first argument is the running \<open>equity\<close>.\<close>

fun equityLoop :: "rat \<Rightarrow> trade list \<Rightarrow> point list" where
  "equityLoop eq [] = []"
| "equityLoop eq (t # ts) =
     (let eq' = eq + getTradeProfit t
      in \<lparr>date = closeTime t, equity = eq', trade = t\<rparr> # equityLoop eq' ts)"

definition getEquityCurve :: "trade list \<Rightarrow> point list" where
  "getEquityCurve trades = equityLoop 0 (sortTradesByDate trades)"

text \<open>
  One iteration of the loop of \<open>getMaxDrawdown\<close>; the state is
  \<open>(maxDrawdown, peak)\<close>.
\<close>

definition ddStep :: "rat \<times> rat \<Rightarrow> point \<Rightarrow> rat \<times> rat" where
  "ddStep s p =
     (let peak = (if equity p > snd s then equity p else snd s);
          drawdown = peak - equity p
      in (if drawdown > fst s then drawdown else fst s, peak))"

definition getMaxDrawdown :: "trade list \<Rightarrow> rat" where
  "getMaxDrawdown trades =
     (case getEquityCurve trades of
        [] \<Rightarrow> 0
      | p0 # ps \<Rightarrow> fst (foldl ddStep (0, equity p0) (p0 # ps)))"

subsection \<open>Streaks\<close>

text \<open>
  One iteration of the loops of \<open>getMaxWinStreak\<close> and \<open>getMaxLoseStreak\<close>; the
  state is \<open>(maxStreak, currentStreak)\<close>.
\<close>

definition winStep :: "nat \<times> nat \<Rightarrow> trade \<Rightarrow> nat \<times> nat" where
  "winStep s t =
     (if getTradeProfit t > 0 then (max (fst s) (snd s + 1), snd s + 1) else (fst s, 0))"

definition loseStep :: "nat \<times> nat \<Rightarrow> trade \<Rightarrow> nat \<times> nat" where
  "loseStep s t =
     (if getTradeProfit t < 0 then (max (fst s) (snd s + 1), snd s + 1) else (fst s, 0))"

definition getMaxWinStreak :: "trade list \<Rightarrow> nat" where
  "getMaxWinStreak trades = fst (foldl winStep (0, 0) (sortTradesByDate trades))"

definition getMaxLoseStreak :: "trade list \<Rightarrow> nat" where
  "getMaxLoseStreak trades = fst (foldl loseStep (0, 0) (sortTradesByDate trades))"

text \<open>
  The running counters \<open>currentStreak\<close> of the two loops after the first \<open>k\<close>
  trades of \<open>sortedTrades\<close>, that is, at the trade boundary \<open>k\<close>.
\<close>

definition winStreakAt :: "trade list \<Rightarrow> nat \<Rightarrow> nat" where
  "winStreakAt trades k = snd (foldl winStep (0, 0) (take k (sortTradesByDate trades)))"

definition loseStreakAt :: "trade list \<Rightarrow> nat \<Rightarrow> nat" where
  "loseStreakAt trades k = snd (foldl loseStep (0, 0) (take k (sortTradesByDate trades)))"

subsection \<open>Profit histogram\<close>



text \<open>\<open>ilog2 n\<close> is the position of the highest set bit of \<open>n\<close>.\<close>

fun ilog2 :: "nat \<Rightarrow> nat" where
  "ilog2 n = (if n < 2 then 0 else Suc (ilog2 (n div 2)))"

definition pow2 :: "int \<Rightarrow> rat" where
  "pow2 e = (if 0 \<le> e then 2 ^ nat e else 1 / 2 ^ nat (- e))"

text \<open>The binary exponent \<open>e\<close> of a nonzero \<open>x\<close>: \<open>2^e \<le> |x| < 2^(e+1)\<close>.\<close>

definition binExponent :: "rat \<Rightarrow> int" where
  "binExponent x =
     (let (p, q) = quotient_of \<bar>x\<bar>;
          e0 = int (ilog2 (nat p)) - int (ilog2 (nat q))
      in if pow2 e0 \<le> \<bar>x\<bar> then e0 else e0 - 1)"

definition roundHalfEven :: "rat \<Rightarrow> int" where
  "roundHalfEven x =
     (let f = \<lfloor>x\<rfloor>; d = x - of_int f
      in if d < 1 / 2 then f else if 1 / 2 < d then f + 1
         else if even f then f else f + 1)"

text \<open>
  IEEE-754 binary64 rounding, to nearest with ties to even: the significand has 53
  bits, so the result is a multiple of \<open>2^(e - 52)\<close>. Overflow to an infinity and
  the subnormal range are not modelled.
\<close>

definition roundDouble :: "rat \<Rightarrow> rat" where
  "roundDouble x =
     (if x = 0 then 0
      else let u = pow2 (binExponent x - 52) in of_int (roundHalfEven (x / u)) * u)"











subsection \<open>Example trades\<close>

text \<open>
  A trade as the parser builds it from a row with symbol, side, close time and
  profit, without commission and swap; used for the concrete examples.
\<close>

definition exampleTrade :: "string \<Rightarrow> side \<Rightarrow> int \<Rightarrow> rat \<Rightarrow> trade" where
  "exampleTrade name sd tm p =
     \<lparr>ticket = Some ''1000001'', symbol = Some name, type = sd, volume = 1 / 100,
      openPrice = 0, closePrice = 0, profit = p, commission = 0, swap = 0,
      netProfit = Some p, sl = None, tp = None, openTime = tm, closeTime = tm\<rparr>"



section \<open>Strings\<close>

text \<open>
  Strings are lists of 8-bit characters and are read as ASCII text: white space is
  the ASCII white space, and only the letters A to Z change case.
\<close>

definition isSpace :: "char \<Rightarrow> bool" where
  "isSpace c \<longleftrightarrow> c \<in> set [CHR '' '', CHR 0x09, CHR 0x0A, CHR 0x0B, CHR 0x0C, CHR 0x0D]"


definition toLowerChar :: "char \<Rightarrow> char" where
  "toLowerChar c =
     (case map_of (zip ''ABCDEFGHIJKLMNOPQRSTUVWXYZ'' ''abcdefghijklmnopqrstuvwxyz'') c of
        Some d \<Rightarrow> d | None \<Rightarrow> c)"



definition toLowerCase :: "string \<Rightarrow> string" where
  "toLowerCase s = map toLowerChar s"


definition trim :: "string \<Rightarrow> string" where
  "trim s = rev (dropWhile isSpace (rev (dropWhile isSpace s)))"

fun startsWith :: "string \<Rightarrow> string \<Rightarrow> bool" where
  "startsWith s [] = True"
| "startsWith [] (p # ps) = False"
| "startsWith (c # cs) (p # ps) = (c = p \<and> startsWith cs ps)"


fun strIncludes :: "string \<Rightarrow> string \<Rightarrow> bool" where
  "strIncludes [] p = (p = [])"
| "strIncludes (c # cs) p = (startsWith (c # cs) p \<or> strIncludes cs p)"




section \<open>Regular expressions\<close>

text \<open>
  The patterns of the parser, matched with Brzozowski derivatives. An atom is a
  predicate on one character; with the flag \<open>i\<close> a letter of the pattern is the atom
  \<open>ci\<close>, which compares lower-cased characters.
\<close>

datatype rx = Zero | One | Atom "char \<Rightarrow> bool" | Alt rx rx | Seq rx rx | Star rx

fun nullable :: "rx \<Rightarrow> bool" where
  "nullable Zero = False"
| "nullable One = True"
| "nullable (Atom P) = False"
| "nullable (Alt r s) = (nullable r \<or> nullable s)"
| "nullable (Seq r s) = (nullable r \<and> nullable s)"
| "nullable (Star r) = True"

fun deriv :: "char \<Rightarrow> rx \<Rightarrow> rx" where
  "deriv c Zero = Zero"
| "deriv c One = Zero"
| "deriv c (Atom P) = (if P c then One else Zero)"
| "deriv c (Alt r s) = Alt (deriv c r) (deriv c s)"
| "deriv c (Seq r s) =
     (if nullable r then Alt (Seq (deriv c r) s) (deriv c s) else Seq (deriv c r) s)"
| "deriv c (Star r) = Seq (deriv c r) (Star r)"

text \<open>The whole string matches: a pattern anchored as \<open>^...$\<close>.\<close>

fun fullMatch :: "rx \<Rightarrow> string \<Rightarrow> bool" where
  "fullMatch r [] = nullable r"
| "fullMatch r (c # cs) = fullMatch (deriv c r) cs"

text \<open>Some prefix of the string matches: a pattern anchored as \<open>^...\<close>.\<close>

fun prefixMatch :: "rx \<Rightarrow> string \<Rightarrow> bool" where
  "prefixMatch r [] = nullable r"
| "prefixMatch r (c # cs) = (nullable r \<or> prefixMatch (deriv c r) cs)"

text \<open>Some substring matches: \<open>pattern.test(s)\<close> for a pattern without anchors.\<close>

fun rxTest :: "rx \<Rightarrow> string \<Rightarrow> bool" where
  "rxTest r [] = nullable r"
| "rxTest r (c # cs) = (prefixMatch r (c # cs) \<or> rxTest r cs)"








section \<open>Trade parser (class TradeParser)\<close>








subsection \<open>Reading the file\<close>





subsection \<open>Delimited text\<close>



datatype field =
  TicketF | OpenTimeF | CloseTimeF | TypeF | VolumeF | SymbolF | OpenPriceF |
  ClosePriceF | ProfitF | CommissionF | SwapF | SlF | TpF

type_synonym columnMap = "field \<Rightarrow> nat option"



text \<open>
  The inner loop \<open>for (const [key, pattern] of Object.entries(patterns))\<close> for the
  column \<open>col\<close> at \<open>index\<close>, and the outer \<open>forEach\<close> over the columns.
\<close>

fun matchPatterns :: "(field \<times> rx) list \<Rightarrow> string \<Rightarrow> nat \<Rightarrow> columnMap \<Rightarrow> columnMap" where
  "matchPatterns [] col index cmap = cmap"
| "matchPatterns ((key, pattern) # ps) col index cmap =
     matchPatterns ps col index
       (if rxTest pattern col \<and> cmap key = None then cmap(key \<mapsto> index) else cmap)"

fun matchColumns ::
  "(field \<times> rx) list \<Rightarrow> string list \<Rightarrow> nat \<Rightarrow> columnMap \<Rightarrow> columnMap" where
  "matchColumns pats [] index cmap = cmap"
| "matchColumns pats (col # cols) index cmap =
     matchColumns pats cols (Suc index) (matchPatterns pats col index cmap)"





subsection \<open>Dates\<close>









subsection \<open>Normalizing a row\<close>

text \<open>
  \<open>normalizeType\<close> of a string. The source calls \<open>value.toString()\<close>, which throws for
  \<open>undefined\<close>; the callers below raise \<open>TypeError\<close> for a missing cell.
\<close>

definition normalizeType :: "string \<Rightarrow> side" where
  "normalizeType v =
     (let t = trim (toLowerCase v)
      in if strIncludes t ''sell'' \<or> strIncludes t ''short'' \<or> t = ''sell'' \<or> t = ''1''
         then Sell else Buy)"









subsection \<open>Markup\<close>























section \<open>Notions of the specification\<close>



text \<open>
  The words a pattern stands for: \<open>conc\<close> joins a word of the first set with a word of
  the second, \<open>iter\<close> joins any number of words of the set.
\<close>

definition conc :: "string set \<Rightarrow> string set \<Rightarrow> string set" where
  "conc A B = {u @ v | u v. u \<in> A \<and> v \<in> B}"

inductive_set iter :: "string set \<Rightarrow> string set" for A :: "string set" where
  iter_nil: "[] \<in> iter A"
| iter_app: "u \<in> A \<Longrightarrow> v \<in> iter A \<Longrightarrow> u @ v \<in> iter A"

fun lang :: "rx \<Rightarrow> string set" where
  "lang Zero = {}"
| "lang One = {[]}"
| "lang (Atom P) = {[c] | c. P c}"
| "lang (Alt r s) = lang r \<union> lang s"
| "lang (Seq r s) = conc (lang r) (lang s)"
| "lang (Star r) = iter (lang r)"

text \<open>A header cell matches a field when it matches a pattern the table has for that field.\<close>

definition fieldMatches :: "(field \<times> rx) list \<Rightarrow> field \<Rightarrow> string \<Rightarrow> bool" where
  "fieldMatches pats key col = list_ex (\<lambda>(k, pattern). k = key \<and> rxTest pattern col) pats"

section \<open>An example host\<close>








section \<open>Properties of the parser\<close>

subsection \<open>The example host at work\<close>









subsection \<open>Net profit of a normalized trade\<close>

















subsection \<open>Encoding detection\<close>





subsection \<open>No empty success\<close>



subsection \<open>Side normalization\<close>

lemma startsWith_iff: "startsWith s p \<longleftrightarrow> (\<exists>ys. s = p @ ys)"
  by (induction s p rule: startsWith.induct) auto

lemma strIncludes_iff: "strIncludes s p \<longleftrightarrow> (\<exists>xs ys. s = xs @ p @ ys)"
proof (induction s)
  case Nil
  then show ?case by auto
next
  case (Cons c cs)
  show ?case
  proof
    assume "strIncludes (c # cs) p"
    then consider "startsWith (c # cs) p" | "strIncludes cs p" by auto
    then show "\<exists>xs ys. c # cs = xs @ p @ ys"
    proof cases
      case 1
      then obtain ys where "c # cs = p @ ys" unfolding startsWith_iff by blast
      then have "c # cs = [] @ p @ ys" by simp
      then show ?thesis by blast
    next
      case 2
      then obtain xs ys where "cs = xs @ p @ ys" using Cons.IH by blast
      then have "c # cs = (c # xs) @ p @ ys" by simp
      then show ?thesis by blast
    qed
  next
    assume "\<exists>xs ys. c # cs = xs @ p @ ys"
    then obtain xs ys where e: "c # cs = xs @ p @ ys" by blast
    show "strIncludes (c # cs) p"
    proof (cases xs)
      case Nil
      with e have "startsWith (c # cs) p" unfolding startsWith_iff by auto
      then show ?thesis by simp
    next
      case (Cons x xs')
      with e have "cs = xs' @ p @ ys" by simp
      then have "strIncludes cs p" using Cons.IH by blast
      then show ?thesis by simp
    qed
  qed
qed

lemma dropWhile_keeps_infix:
  assumes "p \<noteq> []" "\<not> Q (hd p)"
  shows "(\<exists>xs ys. dropWhile Q s = xs @ p @ ys) \<longleftrightarrow> (\<exists>xs ys. s = xs @ p @ ys)"
proof
  assume "\<exists>xs ys. dropWhile Q s = xs @ p @ ys"
  then obtain xs ys where "dropWhile Q s = xs @ p @ ys" by blast
  then have "s = (takeWhile Q s @ xs) @ p @ ys"
    using takeWhile_dropWhile_id[of Q s] by simp
  then show "\<exists>xs ys. s = xs @ p @ ys" by blast
next
  assume "\<exists>xs ys. s = xs @ p @ ys"
  then obtain xs ys where "s = xs @ p @ ys" by blast
  then show "\<exists>xs ys. dropWhile Q s = xs @ p @ ys"
  proof (induction xs arbitrary: s)
    case Nil
    from assms obtain a p' where p: "p = a # p'" "\<not> Q a" by (cases p) auto
    with Nil have "dropWhile Q s = [] @ p @ ys" by simp
    then show ?case by blast
  next
    case (Cons x xs)
    show ?case
    proof (cases "Q x")
      case True
      with Cons.prems have "dropWhile Q s = dropWhile Q (xs @ p @ ys)" by simp
      with Cons.IH[of "xs @ p @ ys"] show ?thesis by simp
    next
      case False
      with Cons.prems have "dropWhile Q s = (x # xs) @ p @ ys" by simp
      then show ?thesis by blast
    qed
  qed
qed

lemma rev_infix: "(\<exists>xs ys. rev s = xs @ p @ ys) \<longleftrightarrow> (\<exists>xs ys. s = xs @ rev p @ ys)"
proof
  assume "\<exists>xs ys. rev s = xs @ p @ ys"
  then obtain xs ys where "rev s = xs @ p @ ys" by blast
  then have "rev (rev s) = rev (xs @ p @ ys)" by simp
  then have "s = rev ys @ rev p @ rev xs" by simp
  then show "\<exists>xs ys. s = xs @ rev p @ ys" by blast
next
  assume "\<exists>xs ys. s = xs @ rev p @ ys"
  then obtain xs ys where "s = xs @ rev p @ ys" by blast
  then have "rev s = rev ys @ p @ rev xs" by simp
  then show "\<exists>xs ys. rev s = xs @ p @ ys" by blast
qed

lemma trim_keeps_infix:
  assumes "p \<noteq> []" "\<not> isSpace (hd p)" "\<not> isSpace (last p)"
  shows "strIncludes (trim s) p \<longleftrightarrow> strIncludes s p"
proof -
  have rp: "rev p \<noteq> []" "\<not> isSpace (hd (rev p))"
    using assms by (simp_all add: hd_rev)
  have "strIncludes (trim s) p \<longleftrightarrow> (\<exists>xs ys. rev (dropWhile isSpace (rev (dropWhile isSpace s))) = xs @ p @ ys)"
    by (simp add: strIncludes_iff trim_def)
  also have "\<dots> \<longleftrightarrow> (\<exists>xs ys. dropWhile isSpace (rev (dropWhile isSpace s)) = xs @ rev p @ ys)"
    by (rule rev_infix)
  also have "\<dots> \<longleftrightarrow> (\<exists>xs ys. rev (dropWhile isSpace s) = xs @ rev p @ ys)"
    by (rule dropWhile_keeps_infix[of "rev p" isSpace, OF rp])
  also have "\<dots> \<longleftrightarrow> (\<exists>xs ys. dropWhile isSpace s = xs @ rev (rev p) @ ys)"
    by (rule rev_infix)
  also have "\<dots> \<longleftrightarrow> (\<exists>xs ys. s = xs @ p @ ys)"
    using dropWhile_keeps_infix[of p isSpace s, OF assms(1,2)] by simp
  finally show ?thesis by (simp add: strIncludes_iff)
qed

text \<open>
  Claim C7, as amended. Side normalization returns sell exactly when the token,
  lower-cased, contains "sell" or "short", or is "1" once trimmed (the numeric code
  of a sell order); it returns buy for every other token.
\<close>

theorem normalizeType_sell_iff:
  "(normalizeType v = Sell \<longleftrightarrow>
      (\<exists>xs ys. toLowerCase v = xs @ ''sell'' @ ys) \<or>
      (\<exists>xs ys. toLowerCase v = xs @ ''short'' @ ys) \<or>
      trim (toLowerCase v) = ''1'') \<and>
   (normalizeType v = Buy \<longleftrightarrow>
      \<not> ((\<exists>xs ys. toLowerCase v = xs @ ''sell'' @ ys) \<or>
         (\<exists>xs ys. toLowerCase v = xs @ ''short'' @ ys) \<or>
         trim (toLowerCase v) = ''1''))"
proof -
  have a: "strIncludes (trim (toLowerCase v)) ''sell'' \<longleftrightarrow> (\<exists>xs ys. toLowerCase v = xs @ ''sell'' @ ys)"
    by (subst trim_keeps_infix) (simp_all add: isSpace_def strIncludes_iff)
  have b: "strIncludes (trim (toLowerCase v)) ''short'' \<longleftrightarrow> (\<exists>xs ys. toLowerCase v = xs @ ''short'' @ ys)"
    by (subst trim_keeps_infix) (simp_all add: isSpace_def strIncludes_iff)
  have c: "trim (toLowerCase v) = ''sell'' \<Longrightarrow> strIncludes (trim (toLowerCase v)) ''sell''"
    by simp
  have "normalizeType v = Sell \<longleftrightarrow>
      strIncludes (trim (toLowerCase v)) ''sell'' \<or> strIncludes (trim (toLowerCase v)) ''short'' \<or>
      trim (toLowerCase v) = ''1''"
    using c by (auto simp: normalizeType_def Let_def)
  then have s: "normalizeType v = Sell \<longleftrightarrow>
      (\<exists>xs ys. toLowerCase v = xs @ ''sell'' @ ys) \<or>
      (\<exists>xs ys. toLowerCase v = xs @ ''short'' @ ys) \<or>
      trim (toLowerCase v) = ''1''"
    unfolding a b .
  have "normalizeType v = Buy \<longleftrightarrow> normalizeType v \<noteq> Sell"
    by (cases "normalizeType v") simp_all
  with s show ?thesis by blast
qed

theorem normalizeType_sell_iff_witness:
  "normalizeType ''Sell Limit'' = Sell \<and> normalizeType '' 1 '' = Sell \<and>
   normalizeType ''balance'' = Buy"
proof -
  have a: "toLowerCase ''Sell Limit'' = [] @ ''sell'' @ '' limit''"
    by (simp add: toLowerCase_def toLowerChar_def)
  have b: "trim (toLowerCase '' 1 '') = ''1''"
    by (simp add: toLowerCase_def toLowerChar_def trim_def isSpace_def)
  have c: "normalizeType ''balance'' \<noteq> Sell"
    by (simp add: normalizeType_def toLowerCase_def toLowerChar_def trim_def isSpace_def)
  from normalizeType_sell_iff [of "''Sell Limit''"] a
  have 1: "normalizeType ''Sell Limit'' = Sell" by blast
  from normalizeType_sell_iff [of "'' 1 ''"] b
  have 2: "normalizeType '' 1 '' = Sell" by blast
  from normalizeType_sell_iff [of "''balance''"] c
  have 3: "normalizeType ''balance'' = Buy" by blast
  from 1 2 3 show ?thesis by blast
qed

text \<open>
  The claim as stated gives sell only to tokens that contain "sell" or "short". The
  token "1" contains neither and is normalized to sell.
\<close>

theorem normalizeType_one_is_sell:
  "normalizeType ''1'' = Sell \<and> \<not> strIncludes (toLowerCase ''1'') ''sell'' \<and>
   \<not> strIncludes (toLowerCase ''1'') ''short''"
  by (simp add: normalizeType_def toLowerCase_def toLowerChar_def trim_def isSpace_def)

subsection \<open>The matcher and the words of a pattern\<close>

lemma nullable_lang: "nullable r \<longleftrightarrow> [] \<in> lang r"
  by (induction r) (auto simp: conc_def intro: iter_nil)

lemma iter_cons:
  "c # w \<in> iter A \<longleftrightarrow> (\<exists>u v. w = u @ v \<and> c # u \<in> A \<and> v \<in> iter A)"
proof
  assume "c # w \<in> iter A"
  then show "\<exists>u v. w = u @ v \<and> c # u \<in> A \<and> v \<in> iter A"
  proof (induction "c # w" arbitrary: w rule: iter.induct)
    case (iter_app u v)
    show ?case
    proof (cases u)
      case Nil
      with iter_app show ?thesis by simp
    next
      case (Cons a u')
      with iter_app.hyps(4) have "a = c" "w = u' @ v" by simp_all
      with iter_app.hyps(1,2) Cons show ?thesis by blast
    qed
  qed
next
  assume "\<exists>u v. w = u @ v \<and> c # u \<in> A \<and> v \<in> iter A"
  then obtain u v where "w = u @ v" "c # u \<in> A" "v \<in> iter A" by blast
  then have "(c # u) @ v \<in> iter A" by (intro iter_app)
  with \<open>w = u @ v\<close> show "c # w \<in> iter A" by simp
qed

lemma conc_cons:
  "c # w \<in> conc A B \<longleftrightarrow>
   (\<exists>u v. w = u @ v \<and> c # u \<in> A \<and> v \<in> B) \<or> ([] \<in> A \<and> c # w \<in> B)"
proof
  assume "c # w \<in> conc A B"
  then obtain u v where uv: "c # w = u @ v" "u \<in> A" "v \<in> B" by (auto simp: conc_def)
  show "(\<exists>u v. w = u @ v \<and> c # u \<in> A \<and> v \<in> B) \<or> ([] \<in> A \<and> c # w \<in> B)"
  proof (cases u)
    case Nil
    with uv show ?thesis by simp
  next
    case (Cons a u')
    with uv have "a = c" "w = u' @ v" by simp_all
    with uv Cons show ?thesis by blast
  qed
next
  assume "(\<exists>u v. w = u @ v \<and> c # u \<in> A \<and> v \<in> B) \<or> ([] \<in> A \<and> c # w \<in> B)"
  then show "c # w \<in> conc A B"
  proof
    assume "\<exists>u v. w = u @ v \<and> c # u \<in> A \<and> v \<in> B"
    then obtain u v where "w = u @ v" "c # u \<in> A" "v \<in> B" by blast
    then have "c # w = (c # u) @ v \<and> c # u \<in> A \<and> v \<in> B" by simp
    then show ?thesis unfolding conc_def by blast
  next
    assume "[] \<in> A \<and> c # w \<in> B"
    then have "c # w = [] @ (c # w) \<and> [] \<in> A \<and> c # w \<in> B" by simp
    then show ?thesis unfolding conc_def by blast
  qed
qed

lemma deriv_lang: "w \<in> lang (deriv c r) \<longleftrightarrow> c # w \<in> lang r"
proof (induction r arbitrary: w)
  case Zero
  then show ?case by simp
next
  case One
  then show ?case by simp
next
  case (Atom P)
  then show ?case by simp
next
  case (Alt r s)
  then show ?case by simp
next
  case (Seq r s)
  have "w \<in> conc (lang (deriv c r)) (lang s) \<longleftrightarrow> (\<exists>u v. w = u @ v \<and> c # u \<in> lang r \<and> v \<in> lang s)"
    using Seq.IH(1) by (auto simp: conc_def)
  with Seq.IH(2) show ?case
    by (simp add: conc_cons nullable_lang)
next
  case (Star r)
  have "w \<in> conc (lang (deriv c r)) (iter (lang r)) \<longleftrightarrow>
        (\<exists>u v. w = u @ v \<and> c # u \<in> lang r \<and> v \<in> iter (lang r))"
    using Star.IH by (auto simp: conc_def)
  then show ?case by (simp add: iter_cons)
qed

lemma fullMatch_lang: "fullMatch r s \<longleftrightarrow> s \<in> lang r"
  by (induction s arbitrary: r) (simp_all add: nullable_lang deriv_lang)

lemma prefixMatch_lang: "prefixMatch r s \<longleftrightarrow> (\<exists>u v. s = u @ v \<and> u \<in> lang r)"
proof (induction s arbitrary: r)
  case Nil
  then show ?case by (simp add: nullable_lang)
next
  case (Cons c cs)
  have "(\<exists>u v. c # cs = u @ v \<and> u \<in> lang r) \<longleftrightarrow>
        [] \<in> lang r \<or> (\<exists>u v. cs = u @ v \<and> c # u \<in> lang r)"
  proof
    assume "\<exists>u v. c # cs = u @ v \<and> u \<in> lang r"
    then obtain u v where uv: "c # cs = u @ v" "u \<in> lang r" by blast
    show "[] \<in> lang r \<or> (\<exists>u v. cs = u @ v \<and> c # u \<in> lang r)"
    proof (cases u)
      case Nil
      with uv show ?thesis by simp
    next
      case (Cons a u')
      with uv have "a = c" "cs = u' @ v" by simp_all
      with uv Cons show ?thesis by blast
    qed
  next
    assume "[] \<in> lang r \<or> (\<exists>u v. cs = u @ v \<and> c # u \<in> lang r)"
    then show "\<exists>u v. c # cs = u @ v \<and> u \<in> lang r"
    proof
      assume "[] \<in> lang r"
      then have "c # cs = [] @ (c # cs) \<and> [] \<in> lang r" by simp
      then show ?thesis by blast
    next
      assume "\<exists>u v. cs = u @ v \<and> c # u \<in> lang r"
      then obtain u v where "cs = u @ v" "c # u \<in> lang r" by blast
      then have "c # cs = (c # u) @ v \<and> c # u \<in> lang r" by simp
      then show ?thesis by blast
    qed
  qed
  then show ?case by (simp add: Cons.IH nullable_lang deriv_lang)
qed

lemma rxTest_lang: "rxTest r s \<longleftrightarrow> (\<exists>x u y. s = x @ u @ y \<and> u \<in> lang r)"
proof (induction s)
  case Nil
  then show ?case by (simp add: nullable_lang)
next
  case (Cons c cs)
  have "(\<exists>x u y. c # cs = x @ u @ y \<and> u \<in> lang r) \<longleftrightarrow>
        (\<exists>u v. c # cs = u @ v \<and> u \<in> lang r) \<or> (\<exists>x u y. cs = x @ u @ y \<and> u \<in> lang r)"
  proof
    assume "\<exists>x u y. c # cs = x @ u @ y \<and> u \<in> lang r"
    then obtain x u y where e: "c # cs = x @ u @ y" "u \<in> lang r" by blast
    show "(\<exists>u v. c # cs = u @ v \<and> u \<in> lang r) \<or> (\<exists>x u y. cs = x @ u @ y \<and> u \<in> lang r)"
    proof (cases x)
      case Nil
      with e show ?thesis by auto
    next
      case (Cons a x')
      with e have "cs = x' @ u @ y" by simp
      with e show ?thesis by blast
    qed
  next
    assume "(\<exists>u v. c # cs = u @ v \<and> u \<in> lang r) \<or> (\<exists>x u y. cs = x @ u @ y \<and> u \<in> lang r)"
    then show "\<exists>x u y. c # cs = x @ u @ y \<and> u \<in> lang r"
    proof
      assume "\<exists>u v. c # cs = u @ v \<and> u \<in> lang r"
      then obtain u v where "c # cs = u @ v" "u \<in> lang r" by blast
      then have "c # cs = [] @ u @ v \<and> u \<in> lang r" by simp
      then show ?thesis by blast
    next
      assume "\<exists>x u y. cs = x @ u @ y \<and> u \<in> lang r"
      then obtain x u y where "cs = x @ u @ y" "u \<in> lang r" by blast
      then have "c # cs = (c # x) @ u @ y \<and> u \<in> lang r" by simp
      then show ?thesis by blast
    qed
  qed
  then show ?case by (simp only: rxTest.simps Cons.IH prefixMatch_lang)
qed




















subsection \<open>Column inference\<close>

lemma matchPatterns_key:
  "matchPatterns pats col index cmap key =
     (case cmap key of Some j \<Rightarrow> Some j
      | None \<Rightarrow> if fieldMatches pats key col then Some index else None)"
proof (induction pats arbitrary: cmap)
  case Nil
  then show ?case by (simp add: fieldMatches_def split: option.splits)
next
  case (Cons kp pats)
  obtain k pattern where kp: "kp = (k, pattern)" by (cases kp)
  show ?case
    unfolding kp matchPatterns.simps Cons.IH
    by (auto simp: fieldMatches_def split: option.splits)
qed


text \<open>The first column that matches gives the index: a later column does not overwrite it.\<close>

lemma matchColumns_first:
  assumes "cmap key = None" "i < length cols" "fieldMatches pats key (cols ! i)"
    and "\<forall>j < i. \<not> fieldMatches pats key (cols ! j)"
  shows "matchColumns pats cols index cmap key = Some (index + i)"
  using assms
proof (induction cols arbitrary: index cmap i)
  case Nil
  then show ?case by simp
next
  case (Cons col cols)
  have keep: "m key = Some j \<Longrightarrow> matchColumns pats cs ix m key = Some j" for m j cs ix
  proof (induction cs arbitrary: ix m)
    case Nil
    then show ?case by simp
  next
    case (Cons c cs)
    have "matchPatterns pats c ix m key = Some j"
      using Cons.prems by (simp add: matchPatterns_key)
    from Cons.IH[of "matchPatterns pats c ix m" "Suc ix", OF this] show ?case by simp
  qed
  show ?case
  proof (cases i)
    case 0
    with Cons.prems have "matchPatterns pats col index cmap key = Some index"
      by (simp add: matchPatterns_key)
    from keep[of "matchPatterns pats col index cmap" index cols "Suc index", OF this] 0
    show ?thesis by simp
  next
    case (Suc i')
    from Cons.prems(4) Suc have "\<not> fieldMatches pats key col" by auto
    with Cons.prems(1) have n: "matchPatterns pats col index cmap key = None"
      by (simp add: matchPatterns_key)
    have "matchColumns pats cols (Suc index) (matchPatterns pats col index cmap) key = Some (Suc index + i')"
    proof (rule Cons.IH[of "matchPatterns pats col index cmap" i' "Suc index", OF n])
      show "i' < length cols" using Cons.prems(2) Suc by simp
      show "fieldMatches pats key (cols ! i')" using Cons.prems(3) Suc by simp
      show "\<forall>j<i'. \<not> fieldMatches pats key (cols ! j)"
        using Cons.prems(4) Suc by auto
    qed
    with Suc show ?thesis by simp
  qed
qed




lemma fieldMatches_lang:
  "fieldMatches pats key col \<longleftrightarrow>
   (\<exists>pattern x u y. (key, pattern) \<in> set pats \<and> col = x @ u @ y \<and> u \<in> lang pattern)"
  unfolding fieldMatches_def list_ex_iff rxTest_lang by auto




section \<open>Properties of the statistics engine\<close>

subsection \<open>Equity curve\<close>







subsection \<open>Drawdown\<close>

lemma ddStep_fold_zero:
  "0 \<le> m \<Longrightarrow>
   0 \<le> fst (foldl ddStep (m, pk) ps) \<and>
   (fst (foldl ddStep (m, pk) ps) = 0 \<longleftrightarrow> m = 0 \<and> sorted (pk # map equity ps))"
proof (induction ps arbitrary: m pk)
  case Nil
  then show ?case by simp
next
  case (Cons p ps)
  let ?pk = "if equity p > pk then equity p else pk"
  let ?m = "if ?pk - equity p > m then ?pk - equity p else m"
  have step: "ddStep (m, pk) p = (?m, ?pk)"
    by (simp add: ddStep_def Let_def)
  have m0: "0 \<le> ?m" using Cons.prems by simp
  have mz: "?m = 0 \<longleftrightarrow> m = 0 \<and> pk \<le> equity p"
    using Cons.prems by auto
  have srt: "pk \<le> equity p \<Longrightarrow> ?pk = equity p" by simp
  from Cons.IH[OF m0, of ?pk] have IH:
    "0 \<le> fst (foldl ddStep (?m, ?pk) ps)"
    "fst (foldl ddStep (?m, ?pk) ps) = 0 \<longleftrightarrow> ?m = 0 \<and> sorted (?pk # map equity ps)"
    by blast+
  have "(?m = 0 \<and> sorted (?pk # map equity ps)) \<longleftrightarrow>
        (m = 0 \<and> sorted (pk # map equity (p # ps)))"
  proof (cases "pk \<le> equity p")
    case True
    then show ?thesis using mz srt by auto
  next
    case False
    then show ?thesis using mz by auto
  qed
  with IH show ?case by (simp only: foldl_Cons step) 
qed

text \<open>
  Claim C3. For every trade collection the maximum drawdown is at least zero, and
  it is zero if and only if the equity curve is non-decreasing throughout.
\<close>

theorem max_drawdown_zero_iff:
  "0 \<le> getMaxDrawdown trades \<and>
   (getMaxDrawdown trades = 0 \<longleftrightarrow> sorted (map equity (getEquityCurve trades)))"
proof (cases "getEquityCurve trades")
  case Nil
  then show ?thesis by (simp add: getMaxDrawdown_def)
next
  case (Cons p0 ps)
  have "0 \<le> (0::rat)" by simp
  from ddStep_fold_zero[OF this, of "equity p0" "p0 # ps"] Cons
  show ?thesis by (simp add: getMaxDrawdown_def)
qed

theorem max_drawdown_zero_iff_witness:
  "0 < getMaxDrawdown [exampleTrade ''EURUSD'' Buy 10 10, exampleTrade ''GBPUSD'' Sell 20 (- 4)] \<and>
   \<not> sorted (map equity
        (getEquityCurve [exampleTrade ''EURUSD'' Buy 10 10, exampleTrade ''GBPUSD'' Sell 20 (- 4)]))"
  using max_drawdown_zero_iff
          [of "[exampleTrade ''EURUSD'' Buy 10 10, exampleTrade ''GBPUSD'' Sell 20 (- 4)]"]
  by (simp add: getEquityCurve_def sortTradesByDate_def exampleTrade_def getTradeProfit_def)

subsection \<open>Streaks\<close>

lemma winStep_pos: "0 < snd (winStep s t) \<Longrightarrow> 0 < getTradeProfit t"
  by (simp add: winStep_def split: if_splits)

lemma loseStep_pos: "0 < snd (loseStep s t) \<Longrightarrow> getTradeProfit t < 0"
  by (simp add: loseStep_def split: if_splits)

lemma streaks_exclusive:
  "snd (foldl winStep (0, 0) xs) = 0 \<or> snd (foldl loseStep (0, 0) xs) = 0"
proof (cases xs rule: rev_cases)
  case Nil
  then show ?thesis by simp
next
  case (snoc ys t)
  show ?thesis
  proof (rule ccontr)
    assume "\<not> ?thesis"
    then have "0 < snd (winStep (foldl winStep (0, 0) ys) t)"
      and "0 < snd (loseStep (foldl loseStep (0, 0) ys) t)"
      using snoc by simp_all
    then have "0 < getTradeProfit t" and "getTradeProfit t < 0"
      using winStep_pos loseStep_pos by blast+
    then show False by simp
  qed
qed

text \<open>
  Claim C4. In the forward pass over the chronologically sorted trades, the running
  win-streak counter and the running lose-streak counter are never both nonzero at
  the same trade boundary, and a breakeven trade (net profit exactly zero) leaves
  both counters at zero. The two maxima returned are the first components of the
  loop states after the last trade.
\<close>

theorem streak_counters_exclusive:
  "(\<forall>k. winStreakAt trades k = 0 \<or> loseStreakAt trades k = 0) \<and>
   (\<forall>k < length trades.
      getTradeProfit (sortTradesByDate trades ! k) = 0 \<longrightarrow>
      winStreakAt trades (Suc k) = 0 \<and> loseStreakAt trades (Suc k) = 0) \<and>
   getMaxWinStreak trades = fst (foldl winStep (0, 0) (take (length trades) (sortTradesByDate trades))) \<and>
   getMaxLoseStreak trades = fst (foldl loseStep (0, 0) (take (length trades) (sortTradesByDate trades)))"
proof -
  have len: "length (sortTradesByDate trades) = length trades"
    by (simp add: sortTradesByDate_def)
  have a: "\<forall>k. winStreakAt trades k = 0 \<or> loseStreakAt trades k = 0"
    unfolding winStreakAt_def loseStreakAt_def by (rule allI, rule streaks_exclusive)
  have b: "\<forall>k < length trades.
      getTradeProfit (sortTradesByDate trades ! k) = 0 \<longrightarrow>
      winStreakAt trades (Suc k) = 0 \<and> loseStreakAt trades (Suc k) = 0"
  proof (intro allI impI)
    fix k assume k: "k < length trades"
      and z: "getTradeProfit (sortTradesByDate trades ! k) = 0"
    from k len have "take (Suc k) (sortTradesByDate trades) =
        take k (sortTradesByDate trades) @ [sortTradesByDate trades ! k]"
      by (simp add: take_Suc_conv_app_nth)
    with z show "winStreakAt trades (Suc k) = 0 \<and> loseStreakAt trades (Suc k) = 0"
      by (simp add: winStreakAt_def loseStreakAt_def winStep_def loseStep_def)
  qed
  have c: "getMaxWinStreak trades = fst (foldl winStep (0, 0) (take (length trades) (sortTradesByDate trades)))"
    "getMaxLoseStreak trades = fst (foldl loseStep (0, 0) (take (length trades) (sortTradesByDate trades)))"
    using len by (simp_all add: getMaxWinStreak_def getMaxLoseStreak_def)
  from a b c show ?thesis by blast
qed

theorem streak_counters_exclusive_witness:
  "(1::nat) < length [exampleTrade ''EURUSD'' Buy 10 10, exampleTrade ''GBPUSD'' Sell 20 0] \<and>
   getTradeProfit
     (sortTradesByDate [exampleTrade ''EURUSD'' Buy 10 10, exampleTrade ''GBPUSD'' Sell 20 0] ! 1) = 0 \<and>
   winStreakAt [exampleTrade ''EURUSD'' Buy 10 10, exampleTrade ''GBPUSD'' Sell 20 0] 1 = 1 \<and>
   winStreakAt [exampleTrade ''EURUSD'' Buy 10 10, exampleTrade ''GBPUSD'' Sell 20 0] (Suc 1) = 0 \<and>
   loseStreakAt [exampleTrade ''EURUSD'' Buy 10 10, exampleTrade ''GBPUSD'' Sell 20 0] (Suc 1) = 0"
  using streak_counters_exclusive
          [of "[exampleTrade ''EURUSD'' Buy 10 10, exampleTrade ''GBPUSD'' Sell 20 0]"]
  by (simp add: sortTradesByDate_def exampleTrade_def getTradeProfit_def winStreakAt_def
        winStep_def)

subsection \<open>Profit factor and risk/reward ratio\<close>

















subsection \<open>Double rounding\<close>

lemma ilog2_bounds: "0 < n \<Longrightarrow> 2 ^ ilog2 n \<le> n \<and> n < 2 ^ Suc (ilog2 n)"
proof (induction n rule: ilog2.induct)
  case (1 n)
  show ?case
  proof (cases "n < 2")
    case True
    with "1.prems" have "n = 1" by simp
    then show ?thesis by simp
  next
    case False
    then have pos: "0 < n div 2" by simp
    from "1.IH"[OF False pos] have lo: "2 ^ ilog2 (n div 2) \<le> n div 2"
      and hi: "n div 2 < 2 ^ Suc (ilog2 (n div 2))" by simp_all
    have eq: "ilog2 n = Suc (ilog2 (n div 2))"
      using False by (subst ilog2.simps) simp
    from lo have "2 * 2 ^ ilog2 (n div 2) \<le> n" by linarith
    moreover from hi have "n < 2 * 2 ^ Suc (ilog2 (n div 2))" by linarith
    ultimately show ?thesis unfolding eq by simp
  qed
qed

lemma pow2_powi: "pow2 e = 2 powi e"
  by (simp add: pow2_def power_int_def inverse_eq_divide power_one_over)

lemma pow2_pos: "0 < pow2 e"
  by (simp add: pow2_powi)

lemma pow2_mono: "e \<le> e' \<Longrightarrow> pow2 e \<le> pow2 e'"
  by (simp add: pow2_powi power_int_increasing)

lemma pow2_add: "pow2 (a + b) = pow2 a * pow2 b"
  by (simp add: pow2_powi power_int_add)

lemma pow2_diff: "pow2 (a - b) = pow2 a / pow2 b"
  by (simp add: pow2_powi power_int_diff)

lemma pow2_nat: "pow2 (int n) = 2 ^ n"
  by (simp add: pow2_def)

lemma exponent_unique:
  assumes "pow2 e \<le> x" "x < pow2 (e + 1)" "pow2 e' \<le> x" "x < pow2 (e' + 1)"
  shows "e = e'"
proof (rule ccontr)
  assume "e \<noteq> e'"
  then consider "e + 1 \<le> e'" | "e' + 1 \<le> e" by linarith
  then show False
  proof cases
    case 1
    from pow2_mono[OF this] assms show False by linarith
  next
    case 2
    from pow2_mono[OF this] assms show False by linarith
  qed
qed

lemma binExponent_bounds:
  assumes "x \<noteq> 0"
  shows "pow2 (binExponent x) \<le> \<bar>x\<bar> \<and> \<bar>x\<bar> < pow2 (binExponent x + 1)"
proof -
  obtain p q where pq: "quotient_of \<bar>x\<bar> = (p, q)" by (cases "quotient_of \<bar>x\<bar>")
  have q: "0 < q" using quotient_of_denom_pos[OF pq] .
  have x: "\<bar>x\<bar> = of_int p / of_int q" using quotient_of_div[OF pq] .
  have "0 < \<bar>x\<bar>" using assms by simp
  with x q have p: "0 < p" by (simp add: zero_less_divide_iff)
  define a where "a = ilog2 (nat p)"
  define b where "b = ilog2 (nat q)"
  have pa: "2 ^ a \<le> nat p \<and> nat p < 2 ^ Suc a"
    unfolding a_def by (rule ilog2_bounds) (use p in simp)
  have qb: "2 ^ b \<le> nat q \<and> nat q < 2 ^ Suc b"
    unfolding b_def by (rule ilog2_bounds) (use q in simp)
  have rp: "(2::rat) ^ a \<le> of_int p" "of_int p < (2::rat) ^ Suc a"
  proof -
    have "of_nat (2 ^ a) \<le> (of_nat (nat p) :: rat)" using pa by (simp only: of_nat_le_iff)
    then show "(2::rat) ^ a \<le> of_int p" using p by simp
    have "(of_nat (nat p) :: rat) < of_nat (2 ^ Suc a)" using pa by (simp only: of_nat_less_iff)
    then show "of_int p < (2::rat) ^ Suc a" using p by simp
  qed
  have rq: "(2::rat) ^ b \<le> of_int q" "of_int q < (2::rat) ^ Suc b"
  proof -
    have "of_nat (2 ^ b) \<le> (of_nat (nat q) :: rat)" using qb by (simp only: of_nat_le_iff)
    then show "(2::rat) ^ b \<le> of_int q" using q by simp
    have "(of_nat (nat q) :: rat) < of_nat (2 ^ Suc b)" using qb by (simp only: of_nat_less_iff)
    then show "of_int q < (2::rat) ^ Suc b" using q by simp
  qed
  have qpos: "(0::rat) < of_int q" using q by simp
  have ppos: "(0::rat) < of_int p" using p by simp
  define e0 where "e0 = int a - int b"
  have up: "\<bar>x\<bar> < pow2 (e0 + 1)"
  proof -
    have "e0 + 1 = int (Suc a) - int b" unfolding e0_def by simp
    then have "pow2 (e0 + 1) = 2 ^ Suc a / 2 ^ b"
      by (simp only: pow2_diff pow2_nat)
    moreover have "of_int p / of_int q < (2::rat) ^ Suc a / 2 ^ b"
      by (rule frac_less) (use rp rq ppos qpos in simp_all)
    ultimately show ?thesis using x by simp
  qed
  have lo: "pow2 (e0 - 1) \<le> \<bar>x\<bar>"
  proof -
    have "e0 - 1 = int a - int (Suc b)" unfolding e0_def by simp
    then have "pow2 (e0 - 1) = 2 ^ a / 2 ^ Suc b"
      by (simp only: pow2_diff pow2_nat)
    moreover have "(2::rat) ^ a / 2 ^ Suc b \<le> of_int p / of_int q"
      by (rule frac_le) (use rp rq ppos qpos in simp_all)
    ultimately show ?thesis using x by simp
  qed
  have be: "binExponent x = (if pow2 e0 \<le> \<bar>x\<bar> then e0 else e0 - 1)"
    by (simp add: binExponent_def pq a_def b_def e0_def Let_def)
  show ?thesis
  proof (cases "pow2 e0 \<le> \<bar>x\<bar>")
    case True
    with be up show ?thesis by simp
  next
    case False
    with be lo show ?thesis by simp
  qed
qed

lemma binExponent_unique:
  assumes "pow2 e \<le> \<bar>x\<bar>" "\<bar>x\<bar> < pow2 (e + 1)"
  shows "binExponent x = e"
proof -
  have "x \<noteq> 0" using assms(1) pow2_pos[of e] by auto
  from binExponent_bounds[OF this] assms show ?thesis
    using exponent_unique by blast
qed

lemma roundHalfEven_error: "\<bar>of_int (roundHalfEven y) - y\<bar> \<le> 1 / 2"
proof -
  have f: "of_int \<lfloor>y\<rfloor> \<le> y" "y < of_int \<lfloor>y\<rfloor> + 1" by linarith+
  define d where "d = y - of_int \<lfloor>y\<rfloor>"
  have d: "0 \<le> d" "d < 1" using f unfolding d_def by linarith+
  have y: "y = of_int \<lfloor>y\<rfloor> + d" unfolding d_def by simp
  consider "d < 1 / 2" | "1 / 2 < d" | "d = 1 / 2" by linarith
  then show ?thesis
  proof cases
    case 1
    then have "roundHalfEven y = \<lfloor>y\<rfloor>"
      unfolding roundHalfEven_def Let_def d_def by simp
    then have "of_int (roundHalfEven y) - y = - d" unfolding d_def by simp
    with 1 d show ?thesis by simp
  next
    case 2
    then have "roundHalfEven y = \<lfloor>y\<rfloor> + 1"
      unfolding roundHalfEven_def Let_def d_def by simp
    then have "of_int (roundHalfEven y) - y = 1 - d" unfolding d_def by simp
    with 2 d show ?thesis by simp
  next
    case 3
    then have "roundHalfEven y = \<lfloor>y\<rfloor> \<or> roundHalfEven y = \<lfloor>y\<rfloor> + 1"
      unfolding roundHalfEven_def Let_def d_def by simp
    then have "of_int (roundHalfEven y) - y = - d \<or> of_int (roundHalfEven y) - y = 1 - d"
      unfolding d_def by auto
    with 3 show ?thesis by auto
  qed
qed

lemma roundDouble_error:
  assumes "x \<noteq> 0"
  shows "\<bar>roundDouble x - x\<bar> \<le> pow2 (binExponent x - 53) \<and>
         (\<exists>m. roundDouble x = of_int m * pow2 (binExponent x - 52))"
proof -
  define u where "u = pow2 (binExponent x - 52)"
  have upos: "0 < u" unfolding u_def by (rule pow2_pos)
  have half: "u / 2 = pow2 (binExponent x - 53)"
  proof -
    have "binExponent x - 53 = (binExponent x - 52) - 1" by simp
    then have "pow2 (binExponent x - 53) = pow2 (binExponent x - 52) / pow2 1"
      by (simp only: pow2_diff)
    then show ?thesis by (simp add: u_def pow2_def)
  qed
  have rd: "roundDouble x = of_int (roundHalfEven (x / u)) * u"
    using assms by (simp add: roundDouble_def Let_def u_def)
  have "\<bar>roundDouble x - x\<bar> = \<bar>of_int (roundHalfEven (x / u)) - x / u\<bar> * u"
  proof -
    have "roundDouble x - x = (of_int (roundHalfEven (x / u)) - x / u) * u"
      using upos by (simp add: rd left_diff_distrib)
    then show ?thesis using upos by (simp add: abs_mult)
  qed
  also have "\<dots> \<le> (1 / 2) * u"
    by (rule mult_right_mono[OF roundHalfEven_error]) (use upos in simp)
  finally have "\<bar>roundDouble x - x\<bar> \<le> pow2 (binExponent x - 53)"
    using half by simp
  with rd show ?thesis unfolding u_def by blast
qed

lemma floor_rat_numeral: "\<lfloor>numeral a / numeral b :: rat\<rfloor> = numeral a div numeral b"
  using floor_divide_of_int_eq[of "numeral a" "numeral b", where ?'a = rat] by simp

lemma roundDouble_at:
  assumes "pow2 e \<le> \<bar>x\<bar>" "\<bar>x\<bar> < pow2 (e + 1)"
  shows "roundDouble x = of_int (roundHalfEven (x / pow2 (e - 52))) * pow2 (e - 52)"
proof -
  have "x \<noteq> 0" using assms(1) pow2_pos[of e] by auto
  then show ?thesis
    by (simp add: roundDouble_def binExponent_unique[OF assms] Let_def)
qed

lemma roundDouble_five_thirds: "roundDouble (5 / 3) = 7505999378950827 / 4503599627370496"
  by (subst roundDouble_at[where e = 0])
     (simp_all add: pow2_def roundHalfEven_def Let_def floor_rat_numeral)

subsection \<open>Profit histogram\<close>
































end
